theory Spec2Isabelle
  imports Main "HOL-Library.Word"
begin

unbundle bit_operations_syntax

section \<open>RingBuffer.h: data model\<close>

text \<open>
  Every index and the flag byte of the buffer are \<open>uint8_t\<close>: 8-bit words, on which
  \<open>+\<close> and \<open>-\<close> wrap modulo 256 as the C++ conversions back to \<open>uint8_t\<close> do.
\<close>

type_synonym uint8_t = "8 word"

text \<open>The flag bits and the three bit-mask macros (lines 6 to 11).\<close>

definition FLAG_FULL :: uint8_t where
  "FLAG_FULL = 0x01"

definition FLAG_EMPTY :: uint8_t where
  "FLAG_EMPTY = 0x02"

definition CLEAR_BITMASK :: "uint8_t \<Rightarrow> uint8_t \<Rightarrow> uint8_t" where
  "CLEAR_BITMASK x y = x AND NOT y"

definition SET_BITMASK :: "uint8_t \<Rightarrow> uint8_t \<Rightarrow> uint8_t" where
  "SET_BITMASK x y = x OR y"

definition CHECK_BITMASK :: "uint8_t \<Rightarrow> uint8_t \<Rightarrow> uint8_t" where
  "CHECK_BITMASK x y = x AND y"

text \<open>
  \<open>struct ringBuff\<close>. The member \<open>addr\<close> points to the caller's array; the model
  holds the array itself, as a list whose length is the real length of that array
  (which the constructor never compares with \<open>arrLen\<close>).
\<close>

record 'a ringBuff =
  addr :: "'a list"
  arrLen :: uint8_t
  readPos :: uint8_t
  writePos :: uint8_t
  flags :: uint8_t

text \<open>
  Undefined behaviour of the C++ is a value of the model: an array access outside the
  caller's array, and \<open>%\<close> by an \<open>arrLen\<close> of zero.
\<close>

datatype error = OutOfBounds | DivByZero

text \<open>
  A \<open>T*\<close> returned by the reference form is \<open>&addr[i]\<close>; it is modelled by the
  offset \<open>i\<close>, counted in elements from \<open>addr\<close>. Forming the pointer reads no memory;
  \<open>deref\<close> is the caller reading through it.
\<close>

type_synonym ptr = nat

definition deref :: "'a ringBuff \<Rightarrow> ptr \<Rightarrow> error + 'a" where
  "deref b p = (if p < length (addr b) then Inr (addr b ! p) else Inl OutOfBounds)"

section \<open>Reference form: \<open>RingBuffer<T, 0>\<close> (lines 18 to 148)\<close>

text \<open>
  The constructor assigns \<open>addr\<close> and \<open>arrLen\<close> and nothing else. Its first argument
  is the content of the object's storage before construction, which the other three
  members keep: zero for an object of static storage duration, indeterminate otherwise.
\<close>

definition RingBuffer :: "'a ringBuff \<Rightarrow> 'a list \<Rightarrow> uint8_t \<Rightarrow> 'a ringBuff" where
  "RingBuffer buff arr elements = buff\<lparr>addr := arr, arrLen := elements\<rparr>"

text \<open>
  \<open>write(T const *data)\<close>, named \<open>write_ref\<close> here because \<open>write\<close> is a command
  of Isabelle. The argument of the model is the element \<open>*data\<close>, which the source
  reads before it stores anything.
\<close>

definition write_ref :: "'a ringBuff \<Rightarrow> 'a \<Rightarrow> error + ('a ringBuff \<times> uint8_t)" where
  "write_ref b data =
     (if \<not> unat (writePos b) < length (addr b) then Inl OutOfBounds
      else if arrLen b = 0 then Inl DivByZero
      else
        let w = (writePos b + 1) mod arrLen b
        in Inr (b\<lparr>addr := (addr b)[unat (writePos b) := data], writePos := w\<rparr>, w))"

definition p_write :: "'a ringBuff \<Rightarrow> 'a \<Rightarrow> error + ('a ringBuff \<times> uint8_t)" where
  "p_write b data =
     (if CHECK_BITMASK (flags b) FLAG_FULL \<noteq> 0 then
        let ret = writePos b - 1
        in Inr (b, if ret > arrLen b then arrLen b else ret)
      else if \<not> unat (writePos b) < length (addr b) then Inl OutOfBounds
      else if arrLen b = 0 then Inl DivByZero
      else
        let ret = (writePos b + 1) mod arrLen b;
            fl = CLEAR_BITMASK (flags b) FLAG_EMPTY;
            fl = (if ret = readPos b then SET_BITMASK fl FLAG_FULL else fl)
        in Inr (b\<lparr>addr := (addr b)[unat (writePos b) := data],
                  writePos := ret, flags := fl\<rparr>, ret))"

definition read :: "'a ringBuff \<Rightarrow> error + ('a ringBuff \<times> ptr)" where
  "read b =
     (if arrLen b = 0 then Inl DivByZero
      else Inr (b\<lparr>readPos := (readPos b + 1) mod arrLen b\<rparr>, unat (readPos b)))"

text \<open>
  \<open>p_read\<close> declares its locals \<open>index\<close> and \<open>item\<close> without initialiser. The branch
  taken when EMPTY is clear uses \<open>index\<close> before any assignment to it, and the branch
  taken when EMPTY is set returns \<open>item\<close> without any assignment to it. The model takes
  the indeterminate initial contents of both locals as arguments.
\<close>

definition p_read :: "'a ringBuff \<Rightarrow> uint8_t \<Rightarrow> ptr \<Rightarrow> error + ('a ringBuff \<times> ptr)" where
  "p_read b index item =
     (if CHECK_BITMASK (flags b) FLAG_EMPTY \<noteq> 0 then
        let index = readPos b - 1;
            index = (if index > arrLen b then arrLen b - 1 else index)
        in Inr (b, item)
      else if arrLen b = 0 then Inl DivByZero
      else
        let item = unat index;
            index = index + 1;
            rp = index mod arrLen b;
            fl = CLEAR_BITMASK (flags b) FLAG_FULL;
            fl = (if index = writePos b then SET_BITMASK fl FLAG_EMPTY else fl)
        in Inr (b\<lparr>readPos := rp, flags := fl\<rparr>, item))"

text \<open>
  \<open>isFull\<close> and \<open>isEmpty\<close> are written with \<open>buff->flags\<close> although \<open>buff\<close> is the
  struct itself, so the source compiles no call of them. The model gives them the
  evident reading, the test of the flag bit on \<open>buff.flags\<close> that \<open>p_write\<close> and
  \<open>p_read\<close> make themselves; they stand below for that test, not for a call.
\<close>

definition isFull :: "'a ringBuff \<Rightarrow> uint8_t" where
  "isFull buff = CHECK_BITMASK (flags buff) FLAG_FULL"

definition isEmpty :: "'a ringBuff \<Rightarrow> uint8_t" where
  "isEmpty buff = CHECK_BITMASK (flags buff) FLAG_EMPTY"

section \<open>Value form: \<open>RingBuffer<T, 1>\<close> (lines 158 to 288)\<close>

text \<open>
  The members have the names of the reference form; the model adds the suffix \<open>_v\<close>.
  The struct, the flags and the status queries are the same text in both classes
  (the status queries with the same \<open>buff->flags\<close>).
\<close>

definition RingBuffer_v :: "'a ringBuff \<Rightarrow> 'a list \<Rightarrow> uint8_t \<Rightarrow> 'a ringBuff" where
  "RingBuffer_v buff arr elements = buff\<lparr>addr := arr, arrLen := elements\<rparr>"

definition write_v :: "'a ringBuff \<Rightarrow> 'a \<Rightarrow> error + ('a ringBuff \<times> uint8_t)" where
  "write_v b data =
     (if \<not> unat (writePos b) < length (addr b) then Inl OutOfBounds
      else if arrLen b = 0 then Inl DivByZero
      else
        let w = (writePos b + 1) mod arrLen b
        in Inr (b\<lparr>addr := (addr b)[unat (writePos b) := data], writePos := w\<rparr>, w))"

definition p_write_v :: "'a ringBuff \<Rightarrow> 'a \<Rightarrow> error + ('a ringBuff \<times> uint8_t)" where
  "p_write_v b data =
     (if CHECK_BITMASK (flags b) FLAG_FULL \<noteq> 0 then
        let ret = writePos b - 1
        in Inr (b, if ret > arrLen b then arrLen b else ret)
      else if \<not> unat (writePos b) < length (addr b) then Inl OutOfBounds
      else if arrLen b = 0 then Inl DivByZero
      else
        let ret = (writePos b + 1) mod arrLen b;
            fl = CLEAR_BITMASK (flags b) FLAG_EMPTY;
            fl = (if ret = readPos b then SET_BITMASK fl FLAG_FULL else fl)
        in Inr (b\<lparr>addr := (addr b)[unat (writePos b) := data],
                  writePos := ret, flags := fl\<rparr>, ret))"

text \<open>The value form reads the element out of the array, so the access can fail.\<close>

definition read_v :: "'a ringBuff \<Rightarrow> error + ('a ringBuff \<times> 'a)" where
  "read_v b =
     (if \<not> unat (readPos b) < length (addr b) then Inl OutOfBounds
      else if arrLen b = 0 then Inl DivByZero
      else Inr (b\<lparr>readPos := (readPos b + 1) mod arrLen b\<rparr>, addr b ! unat (readPos b)))"

text \<open>
  The value form's \<open>p_read\<close> has the same two uninitialised locals; here \<open>item\<close> is a
  \<open>T\<close>. (The function is declared to return \<open>T*\<close> and returns this \<open>T\<close>; the model
  returns the \<open>T\<close>.)
\<close>

definition p_read_v :: "'a ringBuff \<Rightarrow> uint8_t \<Rightarrow> 'a \<Rightarrow> error + ('a ringBuff \<times> 'a)" where
  "p_read_v b index item =
     (if CHECK_BITMASK (flags b) FLAG_EMPTY \<noteq> 0 then
        let index = readPos b - 1;
            index = (if index > arrLen b then arrLen b - 1 else index)
        in Inr (b, item)
      else if \<not> unat index < length (addr b) then Inl OutOfBounds
      else if arrLen b = 0 then Inl DivByZero
      else
        let item = addr b ! unat index;
            index = index + 1;
            rp = index mod arrLen b;
            fl = CLEAR_BITMASK (flags b) FLAG_FULL;
            fl = (if index = writePos b then SET_BITMASK fl FLAG_EMPTY else fl)
        in Inr (b\<lparr>readPos := rp, flags := fl\<rparr>, item))"

definition isFull_v :: "'a ringBuff \<Rightarrow> uint8_t" where
  "isFull_v buff = CHECK_BITMASK (flags buff) FLAG_FULL"

definition isEmpty_v :: "'a ringBuff \<Rightarrow> uint8_t" where
  "isEmpty_v buff = CHECK_BITMASK (flags buff) FLAG_EMPTY"

section \<open>Sequences of calls\<close>

text \<open>
  A call of one of the four operations. A protected read carries the indeterminate
  contents of its two locals. A sequence of calls stops at the first undefined
  behaviour; the values the calls return are dropped.
\<close>

datatype ('a, 'i) call = Write 'a | Read | P_write 'a | P_read uint8_t 'i

fun protected :: "('a, 'i) call \<Rightarrow> bool" where
  "protected (Write d) = False"
| "protected Read = False"
| "protected (P_write d) = True"
| "protected (P_read i j) = True"

fun step :: "'a ringBuff \<Rightarrow> ('a, ptr) call \<Rightarrow> error + 'a ringBuff" where
  "step b (Write d) = map_sum id fst (write_ref b d)"
| "step b Read = map_sum id fst (read b)"
| "step b (P_write d) = map_sum id fst (p_write b d)"
| "step b (P_read i j) = map_sum id fst (p_read b i j)"

fun run :: "'a ringBuff \<Rightarrow> ('a, ptr) call list \<Rightarrow> error + 'a ringBuff" where
  "run b [] = Inr b"
| "run b (c # cs) = (case step b c of Inl e \<Rightarrow> Inl e | Inr b' \<Rightarrow> run b' cs)"

fun step_v :: "'a ringBuff \<Rightarrow> ('a, 'a) call \<Rightarrow> error + 'a ringBuff" where
  "step_v b (Write d) = map_sum id fst (write_v b d)"
| "step_v b Read = map_sum id fst (read_v b)"
| "step_v b (P_write d) = map_sum id fst (p_write_v b d)"
| "step_v b (P_read i j) = map_sum id fst (p_read_v b i j)"

fun run_v :: "'a ringBuff \<Rightarrow> ('a, 'a) call list \<Rightarrow> error + 'a ringBuff" where
  "run_v b [] = Inr b"
| "run_v b (c # cs) = (case step_v b c of Inl e \<Rightarrow> Inl e | Inr b' \<Rightarrow> run_v b' cs)"

text \<open>The cursor invariant of the data model: both cursors below the capacity.\<close>

definition in_range :: "'a ringBuff \<Rightarrow> bool" where
  "in_range b \<longleftrightarrow> readPos b < arrLen b \<and> writePos b < arrLen b"

text \<open>
  Consecutive unprotected reads, with the values they deliver: the reference form hands
  out a pointer, which the caller reads through at once; the value form hands out the
  element.
\<close>

fun reads :: "'a ringBuff \<Rightarrow> nat \<Rightarrow> error + ('a ringBuff \<times> 'a list)" where
  "reads b 0 = Inr (b, [])"
| "reads b (Suc n) =
     (case read b of Inl e \<Rightarrow> Inl e
      | Inr (b1, p) \<Rightarrow>
          (case deref b1 p of Inl e \<Rightarrow> Inl e
           | Inr x \<Rightarrow>
               (case reads b1 n of Inl e \<Rightarrow> Inl e
                | Inr (b2, xs) \<Rightarrow> Inr (b2, x # xs))))"

fun reads_v :: "'a ringBuff \<Rightarrow> nat \<Rightarrow> error + ('a ringBuff \<times> 'a list)" where
  "reads_v b 0 = Inr (b, [])"
| "reads_v b (Suc n) =
     (case read_v b of Inl e \<Rightarrow> Inl e
      | Inr (b1, x) \<Rightarrow>
          (case reads_v b1 n of Inl e \<Rightarrow> Inl e
           | Inr (b2, xs) \<Rightarrow> Inr (b2, x # xs)))"

text \<open>Consecutive protected writes, with the indices they return.\<close>

fun p_writes :: "'a ringBuff \<Rightarrow> 'a list \<Rightarrow> error + ('a ringBuff \<times> uint8_t list)" where
  "p_writes b [] = Inr (b, [])"
| "p_writes b (d # ds) =
     (case p_write b d of Inl e \<Rightarrow> Inl e
      | Inr (b1, r) \<Rightarrow>
          (case p_writes b1 ds of Inl e \<Rightarrow> Inl e
           | Inr (b2, rs) \<Rightarrow> Inr (b2, r # rs)))"

fun p_writes_v :: "'a ringBuff \<Rightarrow> 'a list \<Rightarrow> error + ('a ringBuff \<times> uint8_t list)" where
  "p_writes_v b [] = Inr (b, [])"
| "p_writes_v b (d # ds) =
     (case p_write_v b d of Inl e \<Rightarrow> Inl e
      | Inr (b1, r) \<Rightarrow>
          (case p_writes_v b1 ds of Inl e \<Rightarrow> Inl e
           | Inr (b2, rs) \<Rightarrow> Inr (b2, r # rs)))"

text \<open>
  A buffer of 4-byte integers with capacity 4: its array, read cursor, write cursor and
  flag byte.
\<close>

definition int_buffer ::
  "32 word list \<Rightarrow> uint8_t \<Rightarrow> uint8_t \<Rightarrow> uint8_t \<Rightarrow> 32 word ringBuff" where
  "int_buffer a r w f = \<lparr>addr = a, arrLen = 4, readPos = r, writePos = w, flags = f\<rparr>"

text \<open>The two status flags are not both set.\<close>

definition exclusive :: "'a ringBuff \<Rightarrow> bool" where
  "exclusive b \<longleftrightarrow> \<not> (isFull b \<noteq> 0 \<and> isEmpty b \<noteq> 0)"

section \<open>Flag bits\<close>

lemma bit_FLAG_FULL: "bit FLAG_FULL n \<longleftrightarrow> n = 0"
  by (simp add: FLAG_FULL_def bit_1_iff)

lemma bit_FLAG_EMPTY: "bit FLAG_EMPTY n \<longleftrightarrow> n = 1"
proof -
  have "FLAG_EMPTY = (2 ^ 1 :: 8 word)" by (simp add: FLAG_EMPTY_def)
  then have "bit FLAG_EMPTY n \<longleftrightarrow> bit (2 ^ 1 :: 8 word) n" by simp
  also have "\<dots> \<longleftrightarrow> n = 1" by (simp only: bit_exp_iff) auto
  finally show ?thesis .
qed

lemmas flag_bits = CHECK_BITMASK_def CLEAR_BITMASK_def SET_BITMASK_def
  bit_and_iff bit_or_iff bit_not_iff bit_FLAG_FULL bit_FLAG_EMPTY

lemma word_nonzero_bit: "bit (x :: 8 word) n \<Longrightarrow> x \<noteq> 0"
  by auto

lemma full_after_clear_empty [simp]:
  "CHECK_BITMASK (CLEAR_BITMASK x FLAG_EMPTY) FLAG_FULL = CHECK_BITMASK x FLAG_FULL"
  by (rule bit_eqI) (auto simp add: flag_bits)

lemma empty_after_clear_empty [simp]:
  "CHECK_BITMASK (CLEAR_BITMASK x FLAG_EMPTY) FLAG_EMPTY = 0"
  by (rule bit_eqI) (auto simp add: flag_bits)

lemma empty_after_set_full [simp]:
  "CHECK_BITMASK (SET_BITMASK x FLAG_FULL) FLAG_EMPTY = CHECK_BITMASK x FLAG_EMPTY"
  by (rule bit_eqI) (auto simp add: flag_bits)

lemma full_after_set_full [simp]:
  "CHECK_BITMASK (SET_BITMASK x FLAG_FULL) FLAG_FULL \<noteq> 0"
  by (rule word_nonzero_bit [of _ 0]) (simp add: flag_bits)

lemma empty_after_clear_full [simp]:
  "CHECK_BITMASK (CLEAR_BITMASK x FLAG_FULL) FLAG_EMPTY = CHECK_BITMASK x FLAG_EMPTY"
  by (rule bit_eqI) (auto simp add: flag_bits)

lemma full_after_clear_full [simp]:
  "CHECK_BITMASK (CLEAR_BITMASK x FLAG_FULL) FLAG_FULL = 0"
  by (rule bit_eqI) (auto simp add: flag_bits)

lemma full_after_set_empty [simp]:
  "CHECK_BITMASK (SET_BITMASK x FLAG_EMPTY) FLAG_FULL = CHECK_BITMASK x FLAG_FULL"
  by (rule bit_eqI) (auto simp add: flag_bits)

lemma empty_after_set_empty [simp]:
  "CHECK_BITMASK (SET_BITMASK x FLAG_EMPTY) FLAG_EMPTY \<noteq> 0"
  by (rule word_nonzero_bit [of _ 1]) (simp add: flag_bits)

section \<open>Writing: both forms run the same text\<close>

lemma write_v_eq: "write_v b d = write_ref b d"
  by (simp add: write_v_def write_ref_def)

lemma p_write_v_eq: "p_write_v b d = p_write b d"
  by (simp add: p_write_v_def p_write_def)

lemma unat_advance:
  fixes x n :: uint8_t
  assumes "x < n"
  shows "unat ((x + 1) mod n) = (unat x + 1) mod unat n"
proof -
  from assms have "unat x < unat n" by (simp add: word_less_nat_alt)
  moreover have "unat n < 256" using unsigned_less [of n, where ?'a = nat] by simp
  ultimately have "unat x + 1 < 256" by simp
  then have "unat (x + 1) = unat x + 1"
    by (simp add: unat_word_ariths)
  then show ?thesis by (simp add: unat_mod)
qed

section \<open>Protected write\<close>

text \<open>
  C2. In a state whose FULL flag is clear and whose write cursor is inside the
  capacity (and the capacity inside the array), \<open>p_write\<close> of either form stores the
  element at the write cursor, advances the write cursor by one modulo the capacity,
  leaves EMPTY clear, leaves FULL set exactly when the advanced write cursor equals the
  read cursor, and returns the advanced write cursor. The read cursor and the capacity
  stay as they were.
\<close>

theorem p_write_accepts:
  assumes "isFull b = 0" and "writePos b < arrLen b" and "unat (arrLen b) \<le> length (addr b)"
  shows "\<exists>b' ret. p_write b d = Inr (b', ret) \<and> p_write_v b d = Inr (b', ret)
      \<and> addr b' = (addr b)[unat (writePos b) := d]
      \<and> unat (writePos b') = (unat (writePos b) + 1) mod unat (arrLen b)
      \<and> isEmpty b' = 0
      \<and> (isFull b' \<noteq> 0 \<longleftrightarrow> writePos b' = readPos b')
      \<and> ret = writePos b'
      \<and> readPos b' = readPos b \<and> arrLen b' = arrLen b"
proof -
  from assms(2) have nz: "arrLen b \<noteq> 0" by auto
  from assms(2,3) have inb: "unat (writePos b) < length (addr b)"
    by (simp add: word_less_nat_alt)
  from assms(1) have nf: "CHECK_BITMASK (flags b) FLAG_FULL = 0" by (simp add: isFull_def)
  show ?thesis
    using nz inb nf unat_advance [OF assms(2)]
    by (simp add: p_write_v_eq p_write_def Let_def isEmpty_def isFull_def)
qed

theorem p_write_accepts_witness:
  "isFull (int_buffer [1, 2, 3, 4] 0 3 2) = 0
   \<and> writePos (int_buffer [1, 2, 3, 4] 0 3 2) < arrLen (int_buffer [1, 2, 3, 4] 0 3 2)
   \<and> unat (arrLen (int_buffer [1, 2, 3, 4] 0 3 2)) \<le> length (addr (int_buffer [1, 2, 3, 4] 0 3 2))
   \<and> (\<exists>b' ret. p_write (int_buffer [1, 2, 3, 4] 0 3 2) 9 = Inr (b', ret)
        \<and> p_write_v (int_buffer [1, 2, 3, 4] 0 3 2) 9 = Inr (b', ret)
        \<and> addr b' = (addr (int_buffer [1, 2, 3, 4] 0 3 2))[unat (writePos (int_buffer [1, 2, 3, 4] 0 3 2)) := 9]
        \<and> unat (writePos b') = (unat (writePos (int_buffer [1, 2, 3, 4] 0 3 2)) + 1) mod unat (arrLen (int_buffer [1, 2, 3, 4] 0 3 2))
        \<and> isEmpty b' = 0
        \<and> (isFull b' \<noteq> 0 \<longleftrightarrow> writePos b' = readPos b')
        \<and> ret = writePos b'
        \<and> readPos b' = readPos (int_buffer [1, 2, 3, 4] 0 3 2)
        \<and> arrLen b' = arrLen (int_buffer [1, 2, 3, 4] 0 3 2))"
proof -
  have h1: "isFull (int_buffer [1, 2, 3, 4] 0 3 2) = 0"
    by (simp add: isFull_def int_buffer_def CHECK_BITMASK_def FLAG_FULL_def)
  have h2: "writePos (int_buffer [1, 2, 3, 4] 0 3 2) < arrLen (int_buffer [1, 2, 3, 4] 0 3 2)"
    by (simp add: int_buffer_def)
  have h3: "unat (arrLen (int_buffer [1, 2, 3, 4] 0 3 2)) \<le> length (addr (int_buffer [1, 2, 3, 4] 0 3 2))"
    by (simp add: int_buffer_def)
  show ?thesis
    by (intro conjI h1 h2 h3 p_write_accepts [OF h1 h2 h3])
qed

text \<open>
  C3. In a state whose FULL flag is set and whose write cursor is inside the capacity,
  \<open>p_write\<close> of either form returns the state as it was (array, cursors and flags)
  together with the sentinel: the write cursor minus one, or the capacity when the
  write cursor is 0 and the subtraction wraps. Any number of further calls return the
  same state and the same sentinel.
\<close>

theorem p_write_rejects:
  assumes "isFull b \<noteq> 0" and "writePos b < arrLen b"
  shows "\<exists>r. r = (if writePos b = 0 then arrLen b else writePos b - 1)
      \<and> p_write b d = Inr (b, r) \<and> p_write_v b d = Inr (b, r)
      \<and> p_writes b ds = Inr (b, replicate (length ds) r)
      \<and> p_writes_v b ds = Inr (b, replicate (length ds) r)"
proof -
  define r where "r = (if writePos b = 0 then arrLen b else writePos b - 1)"
  have clamp: "(if writePos b - 1 > arrLen b then arrLen b else writePos b - 1) = r"
  proof (cases "writePos b = 0")
    case True
    then show ?thesis
      unfolding r_def by (auto simp add: not_less word_order.extremum_unique)
  next
    case False
    then have "unat (writePos b) \<noteq> 0" by (simp add: unat_eq_zero)
    with False have "writePos b - 1 < writePos b"
      by (simp add: word_less_nat_alt unat_minus_one)
    with assms(2) have "\<not> writePos b - 1 > arrLen b" by simp
    with False show ?thesis unfolding r_def by simp
  qed
  from assms(1) have f: "CHECK_BITMASK (flags b) FLAG_FULL \<noteq> 0" by (simp add: isFull_def)
  have one: "p_write b x = Inr (b, r)" for x
    using f clamp by (simp add: p_write_def Let_def)
  have many: "p_writes b xs = Inr (b, replicate (length xs) r)" for xs
    by (induction xs) (simp_all add: one)
  have many_v: "p_writes_v b xs = Inr (b, replicate (length xs) r)" for xs
    by (induction xs) (simp_all add: one p_write_v_eq)
  show ?thesis using one many many_v by (simp add: r_def p_write_v_eq)
qed

theorem p_write_rejects_witness:
  "isFull (int_buffer [1, 2, 3, 4] 0 0 1) \<noteq> 0
   \<and> writePos (int_buffer [1, 2, 3, 4] 0 0 1) < arrLen (int_buffer [1, 2, 3, 4] 0 0 1)
   \<and> p_write (int_buffer [1, 2, 3, 4] 0 0 1) 9 = Inr (int_buffer [1, 2, 3, 4] 0 0 1, 4)
   \<and> p_write_v (int_buffer [1, 2, 3, 4] 0 0 1) 9 = Inr (int_buffer [1, 2, 3, 4] 0 0 1, 4)
   \<and> p_writes (int_buffer [1, 2, 3, 4] 0 0 1) [9, 8, 7]
       = Inr (int_buffer [1, 2, 3, 4] 0 0 1, [4, 4, 4])
   \<and> p_writes_v (int_buffer [1, 2, 3, 4] 0 0 1) [9, 8, 7]
       = Inr (int_buffer [1, 2, 3, 4] 0 0 1, [4, 4, 4])"
proof -
  have h1: "isFull (int_buffer [1, 2, 3, 4] 0 0 1) \<noteq> 0"
    by (simp add: isFull_def int_buffer_def CHECK_BITMASK_def FLAG_FULL_def)
  have h2: "writePos (int_buffer [1, 2, 3, 4] 0 0 1) < arrLen (int_buffer [1, 2, 3, 4] 0 0 1)"
    by (simp add: int_buffer_def)
  have r: "(if writePos (int_buffer [1, 2, 3, 4] 0 0 1) = 0
            then arrLen (int_buffer [1, 2, 3, 4] 0 0 1)
            else writePos (int_buffer [1, 2, 3, 4] 0 0 1) - 1) = 4"
    by (simp add: int_buffer_def)
  have three: "replicate (length [9, 8, 7 :: 32 word]) (4 :: uint8_t) = [4, 4, 4]"
    by (simp add: numeral_3_eq_3)
  from p_write_rejects [OF h1 h2, of 9 "[9, 8, 7]"] obtain s where
    s: "s = (if writePos (int_buffer [1, 2, 3, 4] 0 0 1) = 0
             then arrLen (int_buffer [1, 2, 3, 4] 0 0 1)
             else writePos (int_buffer [1, 2, 3, 4] 0 0 1) - 1)"
    and one: "p_write (int_buffer [1, 2, 3, 4] 0 0 1) 9 = Inr (int_buffer [1, 2, 3, 4] 0 0 1, s)"
    and one_v: "p_write_v (int_buffer [1, 2, 3, 4] 0 0 1) 9 = Inr (int_buffer [1, 2, 3, 4] 0 0 1, s)"
    and many: "p_writes (int_buffer [1, 2, 3, 4] 0 0 1) [9, 8, 7]
                 = Inr (int_buffer [1, 2, 3, 4] 0 0 1, replicate (length [9, 8, 7 :: 32 word]) s)"
    and many_v: "p_writes_v (int_buffer [1, 2, 3, 4] 0 0 1) [9, 8, 7]
                 = Inr (int_buffer [1, 2, 3, 4] 0 0 1, replicate (length [9, 8, 7 :: 32 word]) s)"
    by blast
  from s r have s4: "s = 4" by (simp only:)
  show ?thesis
    by (intro conjI h1 h2 one [unfolded s4] one_v [unfolded s4]
        many [unfolded s4 three] many_v [unfolded s4 three])
qed

section \<open>Protected read\<close>

lemmas eval_defs = int_buffer_def write_ref_def write_v_def read_def read_v_def deref_def
  p_write_def p_write_v_def p_read_def p_read_v_def Let_def
  CHECK_BITMASK_def CLEAR_BITMASK_def SET_BITMASK_def FLAG_FULL_def FLAG_EMPTY_def
  isFull_def isEmpty_def isFull_v_def isEmpty_v_def

text \<open>
  C1. The claim: with EMPTY clear, \<open>p_read\<close> delivers the element at the read cursor,
  advances the read cursor modulo the capacity, clears FULL, and sets EMPTY exactly
  when the advanced read cursor equals the write cursor. The code does not: it indexes
  the array with its local \<open>index\<close>, which it never sets from \<open>readPos\<close>, and it
  compares \<open>index + 1\<close> before the reduction modulo the capacity with the write
  cursor. The buffer below holds 10, 20, 30, 40 with read cursor 3, write cursor 0 and
  both flags clear, so the claim asks for the element 40 (slot 3), read cursor 0 and
  EMPTY set. When \<open>index\<close> holds 1, both forms deliver slot 1 (the element 20) and
  leave the read cursor at 2. When \<open>index\<close> happens to hold 3, the value of the read
  cursor, both forms deliver slot 3 and leave the read cursor at 0 but EMPTY clear.
\<close>

theorem p_read_reads_at_uninitialised_index:
  "p_read (int_buffer [10, 20, 30, 40] 3 0 0) 1 j
     = Inr (int_buffer [10, 20, 30, 40] 2 0 0, 1)
   \<and> p_read (int_buffer [10, 20, 30, 40] 3 0 0) 3 j
     = Inr (int_buffer [10, 20, 30, 40] 0 0 0, 3)
   \<and> p_read_v (int_buffer [10, 20, 30, 40] 3 0 0) 1 x
     = Inr (int_buffer [10, 20, 30, 40] 2 0 0, 20)
   \<and> p_read_v (int_buffer [10, 20, 30, 40] 3 0 0) 3 x
     = Inr (int_buffer [10, 20, 30, 40] 0 0 0, 40)
   \<and> isEmpty (int_buffer [10, 20, 30, 40] 0 0 0) = 0"
  by (simp add: eval_defs)

text \<open>
  C4. The claim: with EMPTY set, \<open>p_read\<close> changes no state and delivers again the
  element of the last successful read. The code changes no state, computes the index of
  that slot, and then returns its local \<open>item\<close>, to which this branch never assigns:
  whatever \<open>item\<close> holds is what the caller gets, in both forms. The buffer below has
  read cursor 2, write cursor 2 and EMPTY set, so the slot of the last successful read
  is slot 1, holding 20.
\<close>

theorem p_read_returns_uninitialised_item:
  "isEmpty (int_buffer [10, 20, 0, 0] 2 2 2) \<noteq> 0
   \<and> p_read (int_buffer [10, 20, 0, 0] 2 2 2) i j = Inr (int_buffer [10, 20, 0, 0] 2 2 2, j)
   \<and> p_read_v (int_buffer [10, 20, 0, 0] 2 2 2) i x = Inr (int_buffer [10, 20, 0, 0] 2 2 2, x)"
  by (simp add: eval_defs)

section \<open>The two flags\<close>

lemma step_exclusive:
  assumes "exclusive b" and "protected c" and "step b c = Inr b'"
  shows "exclusive b'"
proof (cases c)
  case (P_write d)
  with assms show ?thesis
    by (auto simp add: p_write_def Let_def exclusive_def isFull_def isEmpty_def split: if_splits)
next
  case (P_read i j)
  with assms show ?thesis
    by (auto simp add: p_read_def Let_def exclusive_def isFull_def isEmpty_def split: if_splits)
qed (use assms in simp_all)

lemma step_v_exclusive:
  assumes "exclusive b" and "protected c" and "step_v b c = Inr b'"
  shows "exclusive b'"
proof (cases c)
  case (P_write d)
  with assms show ?thesis
    by (auto simp add: p_write_v_def Let_def exclusive_def isFull_def isEmpty_def split: if_splits)
next
  case (P_read i j)
  with assms show ?thesis
    by (auto simp add: p_read_v_def Let_def exclusive_def isFull_def isEmpty_def split: if_splits)
qed (use assms in simp_all)

lemma run_exclusive:
  assumes "exclusive b" and "\<forall>c\<in>set cs. protected c" and "run b cs = Inr b'"
  shows "exclusive b'"
  using assms
proof (induction cs arbitrary: b)
  case Nil
  then show ?case by simp
next
  case (Cons c cs)
  from Cons.prems(3) obtain b1 where
    s: "step b c = Inr b1" and r: "run b1 cs = Inr b'"
    by (auto split: sum.splits)
  from Cons.prems(2) have pc: "protected c" and pcs: "\<forall>c\<in>set cs. protected c" by simp_all
  from step_exclusive [OF Cons.prems(1) pc s] have "exclusive b1" .
  from Cons.IH [OF this pcs r] show ?case .
qed

lemma run_v_exclusive:
  assumes "exclusive b" and "\<forall>c\<in>set cs. protected c" and "run_v b cs = Inr b'"
  shows "exclusive b'"
  using assms
proof (induction cs arbitrary: b)
  case Nil
  then show ?case by simp
next
  case (Cons c cs)
  from Cons.prems(3) obtain b1 where
    s: "step_v b c = Inr b1" and r: "run_v b1 cs = Inr b'"
    by (auto split: sum.splits)
  from Cons.prems(2) have pc: "protected c" and pcs: "\<forall>c\<in>set cs. protected c" by simp_all
  from step_v_exclusive [OF Cons.prems(1) pc s] have "exclusive b1" .
  from Cons.IH [OF this pcs r] show ?case .
qed

text \<open>
  C5. From a buffer whose FULL and EMPTY flags are both clear, every sequence of
  protected calls (\<open>p_write\<close> and \<open>p_read\<close>, whatever the uninitialised locals of
  \<open>p_read\<close> hold) ends in a state where FULL and EMPTY are not both set, in the
  reference form and in the value form. Every prefix of a sequence is a sequence, so
  this holds after each call.
\<close>

theorem flags_never_both:
  assumes "isFull b = 0" and "isEmpty b = 0"
  shows "(\<forall>cs b'. (\<forall>c\<in>set cs. protected c) \<longrightarrow> run b cs = Inr b'
            \<longrightarrow> \<not> (isFull b' \<noteq> 0 \<and> isEmpty b' \<noteq> 0))
       \<and> (\<forall>cs b'. (\<forall>c\<in>set cs. protected c) \<longrightarrow> run_v b cs = Inr b'
            \<longrightarrow> \<not> (isFull_v b' \<noteq> 0 \<and> isEmpty_v b' \<noteq> 0))"
proof -
  from assms have e: "exclusive b" by (simp add: exclusive_def)
  have v: "isFull_v x = isFull x" "isEmpty_v x = isEmpty x" for x :: "'a ringBuff"
    by (simp_all add: isFull_v_def isFull_def isEmpty_v_def isEmpty_def)
  show ?thesis
    using run_exclusive [OF e] run_v_exclusive [OF e]
    unfolding exclusive_def v by blast
qed

theorem flags_never_both_witness:
  "isFull (int_buffer [0, 0, 0, 0] 0 0 0) = 0
   \<and> isEmpty (int_buffer [0, 0, 0, 0] 0 0 0) = 0
   \<and> list_all protected [P_write 1, P_write 2, P_write 3, P_write 4, P_write 5 :: (32 word, ptr) call]
   \<and> run (int_buffer [0, 0, 0, 0] 0 0 0) [P_write 1, P_write 2, P_write 3, P_write 4, P_write 5]
       = Inr (int_buffer [1, 2, 3, 4] 0 0 1)
   \<and> \<not> (isFull (int_buffer [1, 2, 3, 4] 0 0 1) \<noteq> 0 \<and> isEmpty (int_buffer [1, 2, 3, 4] 0 0 1) \<noteq> 0)
   \<and> list_all protected [P_write 1, P_write 2, P_read 0 9, P_read 1 9 :: (32 word, 32 word) call]
   \<and> run_v (int_buffer [0, 0, 0, 0] 0 0 0) [P_write 1, P_write 2, P_read 0 9, P_read 1 9]
       = Inr (int_buffer [1, 2, 0, 0] 2 2 2)
   \<and> \<not> (isFull_v (int_buffer [1, 2, 0, 0] 2 2 2) \<noteq> 0 \<and> isEmpty_v (int_buffer [1, 2, 0, 0] 2 2 2) \<noteq> 0)"
proof -
  have h1: "isFull (int_buffer [0, 0, 0, 0] 0 0 0) = 0"
    and h2: "isEmpty (int_buffer [0, 0, 0, 0] 0 0 0) = 0"
    by (simp_all add: eval_defs)
  have p: "list_all protected [P_write 1, P_write 2, P_write 3, P_write 4, P_write 5 :: (32 word, ptr) call]"
    and pv: "list_all protected [P_write 1, P_write 2, P_read 0 9, P_read 1 9 :: (32 word, 32 word) call]"
    by simp_all
  have r: "run (int_buffer [0, 0, 0, 0] 0 0 0) [P_write 1, P_write 2, P_write 3, P_write 4, P_write 5]
       = Inr (int_buffer [1, 2, 3, 4] 0 0 1)"
    by (simp add: eval_defs)
  have rv: "run_v (int_buffer [0, 0, 0, 0] 0 0 0) [P_write 1, P_write 2, P_read 0 9, P_read 1 9]
       = Inr (int_buffer [1, 2, 0, 0] 2 2 2)"
    by (simp add: eval_defs)
  note t = flags_never_both [OF h1 h2]
  from t p r have c: "\<not> (isFull (int_buffer [1, 2, 3, 4] 0 0 1) \<noteq> 0
      \<and> isEmpty (int_buffer [1, 2, 3, 4] 0 0 1) \<noteq> 0)"
    unfolding list_all_iff by blast
  from t pv rv have cv: "\<not> (isFull_v (int_buffer [1, 2, 0, 0] 2 2 2) \<noteq> 0
      \<and> isEmpty_v (int_buffer [1, 2, 0, 0] 2 2 2) \<noteq> 0)"
    unfolding list_all_iff by blast
  show ?thesis by (intro conjI h1 h2 p r c pv rv cv)
qed

section \<open>Construction\<close>

text \<open>
  C6, as the code has it. The constructor of either form stores the caller's array in
  \<open>addr\<close> and the element count in \<open>arrLen\<close> and assigns nothing else: \<open>readPos\<close>,
  \<open>writePos\<close> and the flag byte \<open>flags\<close> hold after construction what the object's
  storage held before it. So the FULL bit and the EMPTY bit of \<open>flags\<close> are clear after
  construction when the flag byte was zero before it, as it is for an object of static
  storage duration.
\<close>

theorem constructor_keeps_flags:
  "addr (RingBuffer buff arr n) = arr
   \<and> arrLen (RingBuffer buff arr n) = n
   \<and> readPos (RingBuffer buff arr n) = readPos buff
   \<and> writePos (RingBuffer buff arr n) = writePos buff
   \<and> flags (RingBuffer buff arr n) = flags buff
   \<and> addr (RingBuffer_v buff arr n) = arr
   \<and> arrLen (RingBuffer_v buff arr n) = n
   \<and> readPos (RingBuffer_v buff arr n) = readPos buff
   \<and> writePos (RingBuffer_v buff arr n) = writePos buff
   \<and> flags (RingBuffer_v buff arr n) = flags buff
   \<and> CHECK_BITMASK (flags (RingBuffer (buff\<lparr>flags := 0\<rparr>) arr n)) FLAG_FULL = 0
   \<and> CHECK_BITMASK (flags (RingBuffer (buff\<lparr>flags := 0\<rparr>) arr n)) FLAG_EMPTY = 0
   \<and> CHECK_BITMASK (flags (RingBuffer_v (buff\<lparr>flags := 0\<rparr>) arr n)) FLAG_FULL = 0
   \<and> CHECK_BITMASK (flags (RingBuffer_v (buff\<lparr>flags := 0\<rparr>) arr n)) FLAG_EMPTY = 0"
  by (simp add: RingBuffer_def RingBuffer_v_def CHECK_BITMASK_def)

text \<open>
  C6 as stated fails: constructed in storage whose flag byte holds 3, the buffer of
  either form has the flag byte 3, with the FULL bit and the EMPTY bit both set,
  before any operation.
\<close>

theorem constructor_flags_counterexample:
  "flags (RingBuffer \<lparr>addr = [], arrLen = 0, readPos = 0, writePos = 0, flags = 3\<rparr>
            [0, 0, 0, 0 :: 32 word] 4) = 3
   \<and> CHECK_BITMASK (flags (RingBuffer
            \<lparr>addr = [], arrLen = 0, readPos = 0, writePos = 0, flags = 3\<rparr>
            [0, 0, 0, 0 :: 32 word] 4)) FLAG_FULL \<noteq> 0
   \<and> CHECK_BITMASK (flags (RingBuffer
            \<lparr>addr = [], arrLen = 0, readPos = 0, writePos = 0, flags = 3\<rparr>
            [0, 0, 0, 0 :: 32 word] 4)) FLAG_EMPTY \<noteq> 0
   \<and> flags (RingBuffer_v \<lparr>addr = [], arrLen = 0, readPos = 0, writePos = 0, flags = 3\<rparr>
            [0, 0, 0, 0 :: 32 word] 4) = 3
   \<and> CHECK_BITMASK (flags (RingBuffer_v
            \<lparr>addr = [], arrLen = 0, readPos = 0, writePos = 0, flags = 3\<rparr>
            [0, 0, 0, 0 :: 32 word] 4)) FLAG_FULL \<noteq> 0
   \<and> CHECK_BITMASK (flags (RingBuffer_v
            \<lparr>addr = [], arrLen = 0, readPos = 0, writePos = 0, flags = 3\<rparr>
            [0, 0, 0, 0 :: 32 word] 4)) FLAG_EMPTY \<noteq> 0"
  by (simp add: RingBuffer_def RingBuffer_v_def CHECK_BITMASK_def FLAG_FULL_def FLAG_EMPTY_def)

section \<open>Cursor range\<close>

lemma step_keeps:
  assumes "in_range b" and "unat (arrLen b) \<le> length (addr b)"
  shows "\<exists>b'. step b c = Inr b' \<and> in_range b' \<and> arrLen b' = arrLen b
           \<and> length (addr b') = length (addr b)"
proof -
  from assms(1) have nz: "arrLen b \<noteq> 0" and pos: "0 < arrLen b"
    by (auto simp add: in_range_def word_gt_0)
  from assms have inb: "unat (writePos b) < length (addr b)"
    by (simp add: in_range_def word_less_nat_alt)
  have m: "x mod arrLen b < arrLen b" for x
    using pos by (rule word_mod_less_divisor)
  show ?thesis
  proof (cases c)
    case (Write d)
    then show ?thesis using assms(1) nz inb m
      by (simp add: write_ref_def Let_def in_range_def)
  next
    case Read
    then show ?thesis using assms(1) nz m
      by (simp add: read_def in_range_def)
  next
    case (P_write d)
    then show ?thesis using assms(1) nz inb m
      by (simp add: p_write_def Let_def in_range_def)
  next
    case (P_read i j)
    then show ?thesis using assms(1) nz m
      by (simp add: p_read_def Let_def in_range_def)
  qed
qed

lemma step_v_keeps:
  assumes "in_range b" and "step_v b c = Inr b'"
  shows "in_range b' \<and> arrLen b' = arrLen b \<and> length (addr b') = length (addr b)"
proof -
  from assms(1) have nz: "arrLen b \<noteq> 0" and pos: "0 < arrLen b"
    by (auto simp add: in_range_def word_gt_0)
  have m: "x mod arrLen b < arrLen b" for x
    using pos by (rule word_mod_less_divisor)
  show ?thesis
  proof (cases c)
    case (Write d)
    then show ?thesis using assms nz m
      by (auto simp add: write_v_def Let_def in_range_def split: if_splits)
  next
    case Read
    then show ?thesis using assms nz m
      by (auto simp add: read_v_def in_range_def split: if_splits)
  next
    case (P_write d)
    then show ?thesis using assms nz m
      by (auto simp add: p_write_v_def Let_def in_range_def split: if_splits)
  next
    case (P_read i j)
    then show ?thesis using assms nz m
      by (auto simp add: p_read_v_def Let_def in_range_def split: if_splits)
  qed
qed

lemma run_keeps:
  assumes "in_range b" and "unat (arrLen b) \<le> length (addr b)"
  shows "\<exists>b'. run b cs = Inr b' \<and> in_range b'"
  using assms
proof (induction cs arbitrary: b)
  case Nil
  then show ?case by simp
next
  case (Cons c cs)
  from step_keeps [OF Cons.prems, of c] obtain b1 where
    s: "step b c = Inr b1" and r: "in_range b1" and a: "arrLen b1 = arrLen b"
    and l: "length (addr b1) = length (addr b)" by blast
  from Cons.prems(2) a l have "unat (arrLen b1) \<le> length (addr b1)" by simp
  from Cons.IH [OF r this] s show ?case by simp
qed

lemma run_v_keeps:
  assumes "in_range b" and "run_v b cs = Inr b'"
  shows "in_range b'"
  using assms
proof (induction cs arbitrary: b)
  case Nil
  then show ?case by simp
next
  case (Cons c cs)
  from Cons.prems(2) obtain b1 where
    s: "step_v b c = Inr b1" and r: "run_v b1 cs = Inr b'"
    by (auto split: sum.splits)
  from step_v_keeps [OF Cons.prems(1) s] have "in_range b1" by simp
  from Cons.IH [OF this r] show ?case .
qed

lemma step_in_range:
  assumes "in_range b" and "step b c = Inr b'"
  shows "in_range b'"
proof -
  from assms(1) have nz: "arrLen b \<noteq> 0" and pos: "0 < arrLen b"
    by (auto simp add: in_range_def word_gt_0)
  have m: "x mod arrLen b < arrLen b" for x
    using pos by (rule word_mod_less_divisor)
  show ?thesis
  proof (cases c)
    case (Write d)
    then show ?thesis using assms nz m
      by (auto simp add: write_ref_def Let_def in_range_def split: if_splits)
  next
    case Read
    then show ?thesis using assms nz m
      by (auto simp add: read_def in_range_def split: if_splits)
  next
    case (P_write d)
    then show ?thesis using assms nz m
      by (auto simp add: p_write_def Let_def in_range_def split: if_splits)
  next
    case (P_read i j)
    then show ?thesis using assms nz m
      by (auto simp add: p_read_def Let_def in_range_def split: if_splits)
  qed
qed

lemma run_in_range:
  assumes "in_range b" and "run b cs = Inr b'"
  shows "in_range b'"
  using assms
proof (induction cs arbitrary: b)
  case Nil
  then show ?case by simp
next
  case (Cons c cs)
  from Cons.prems(2) obtain b1 where
    s: "step b c = Inr b1" and r: "run b1 cs = Inr b'"
    by (auto split: sum.splits)
  from step_in_range [OF Cons.prems(1) s] have "in_range b1" .
  from Cons.IH [OF this r] show ?case .
qed

text \<open>
  C7. A buffer whose two cursors are below its capacity (so the capacity is at least
  1): every sequence of calls of \<open>write\<close>, \<open>read\<close>, \<open>p_write\<close> and \<open>p_read\<close> that
  runs to its end leaves both cursors below the capacity, in the reference form and in
  the value form, whatever the uninitialised locals of \<open>p_read\<close> hold. When the array
  has at least as many elements as the capacity says, every sequence of calls of the
  reference form does run to its end. (The value form's \<open>p_read\<close> loads from the array
  at its uninitialised index, which can lie outside the array.)
\<close>

theorem cursors_stay_in_range:
  assumes "in_range b"
  shows "(\<forall>b'. run b cs = Inr b' \<longrightarrow> in_range b')
       \<and> (\<forall>b'. run_v b cs' = Inr b' \<longrightarrow> in_range b')
       \<and> (unat (arrLen b) \<le> length (addr b) \<longrightarrow> (\<exists>b'. run b cs = Inr b'))"
  using run_in_range [OF assms] run_v_keeps [OF assms] run_keeps [OF assms] by blast

theorem cursors_stay_in_range_witness:
  "in_range (int_buffer [0, 0, 0, 0] 3 3 0)
   \<and> run (int_buffer [0, 0, 0, 0] 3 3 0) [Write 1, P_write 2, Read, P_read 200 9]
       = Inr (int_buffer [2, 0, 0, 1] 1 1 0)
   \<and> in_range (int_buffer [2, 0, 0, 1] 1 1 0)
   \<and> run_v (int_buffer [0, 0, 0, 0] 3 3 0) [Write 1, P_write 2, Read, P_read 3 9]
       = Inr (int_buffer [2, 0, 0, 1] 0 1 0)
   \<and> in_range (int_buffer [2, 0, 0, 1] 0 1 0)
   \<and> unat (arrLen (int_buffer [0, 0, 0, 0] 3 3 0)) \<le> length (addr (int_buffer [0, 0, 0, 0] 3 3 0))
   \<and> (\<exists>b'. run (int_buffer [0, 0, 0, 0] 3 3 0) [Write 1, P_write 2, Read, P_read 200 9] = Inr b')"
proof -
  have h1: "in_range (int_buffer [0, 0, 0, 0] 3 3 0)"
    by (simp add: in_range_def int_buffer_def)
  have h2: "unat (arrLen (int_buffer [0, 0, 0, 0] 3 3 0))
      \<le> length (addr (int_buffer [0, 0, 0, 0] 3 3 0))"
    by (simp add: int_buffer_def)
  have r: "run (int_buffer [0, 0, 0, 0] 3 3 0) [Write 1, P_write 2, Read, P_read 200 9]
       = Inr (int_buffer [2, 0, 0, 1] 1 1 0)"
    by (simp add: eval_defs)
  have rv: "run_v (int_buffer [0, 0, 0, 0] 3 3 0) [Write 1, P_write 2, Read, P_read 3 9]
       = Inr (int_buffer [2, 0, 0, 1] 0 1 0)"
    by (simp add: eval_defs)
  note t = cursors_stay_in_range [OF h1,
      of "[Write 1, P_write 2, Read, P_read 200 9]" "[Write 1, P_write 2, Read, P_read 3 9]"]
  from t r have c: "in_range (int_buffer [2, 0, 0, 1] 1 1 0)" by blast
  from t rv have cv: "in_range (int_buffer [2, 0, 0, 1] 0 1 0)" by blast
  from t h2 have e: "\<exists>b'. run (int_buffer [0, 0, 0, 0] 3 3 0)
      [Write 1, P_write 2, Read, P_read 200 9] = Inr b'" by blast
  show ?thesis by (intro conjI h1 r c rv cv h2 e)
qed

section \<open>Unprotected writes wrap around\<close>

lemma write_ref_ok:
  assumes "writePos b < arrLen b" and "unat (arrLen b) \<le> length (addr b)"
  shows "write_ref b d = Inr (b\<lparr>addr := (addr b)[unat (writePos b) := d],
                               writePos := (writePos b + 1) mod arrLen b\<rparr>,
                            (writePos b + 1) mod arrLen b)"
proof -
  from assms(1) have "arrLen b \<noteq> 0" by auto
  moreover from assms have "unat (writePos b) < length (addr b)"
    by (simp add: word_less_nat_alt)
  ultimately show ?thesis by (simp add: write_ref_def Let_def)
qed

text \<open>Writes that stay below the end of the array fill it slot by slot.\<close>

lemma run_writes:
  assumes "writePos b < arrLen b"
    and "unat (writePos b) + length ds \<le> unat (arrLen b)"
    and "unat (arrLen b) \<le> length (addr b)"
  shows "\<exists>b'. run b (map Write ds) = Inr b'
      \<and> addr b' = take (unat (writePos b)) (addr b) @ ds
                    @ drop (unat (writePos b) + length ds) (addr b)
      \<and> unat (writePos b') = (unat (writePos b) + length ds) mod unat (arrLen b)
      \<and> arrLen b' = arrLen b \<and> readPos b' = readPos b \<and> flags b' = flags b"
  using assms
proof (induction ds arbitrary: b)
  case Nil
  then show ?case by (simp add: word_less_nat_alt)
next
  case (Cons d ds)
  let ?w = "unat (writePos b)" and ?N = "unat (arrLen b)"
  define b1 where "b1 = b\<lparr>addr := (addr b)[?w := d], writePos := (writePos b + 1) mod arrLen b\<rparr>"
  have st: "step b (Write d) = Inr b1"
    using write_ref_ok [OF Cons.prems(1,3), of d] by (simp add: b1_def)
  from Cons.prems(1) have pos: "0 < arrLen b" by (auto simp add: word_gt_0)
  have w1: "unat (writePos b1) = (?w + 1) mod ?N"
    using unat_advance [OF Cons.prems(1)] by (simp add: b1_def)
  have p1: "writePos b1 < arrLen b1"
    using word_mod_less_divisor [OF pos] by (simp add: b1_def)
  from Cons.prems(2) have wN: "?w + 1 \<le> ?N" by simp
  have p2: "unat (writePos b1) + length ds \<le> unat (arrLen b1)"
  proof (cases "?w + 1 = ?N")
    case True
    with Cons.prems(2) w1 show ?thesis by (simp add: b1_def)
  next
    case False
    with wN have "?w + 1 < ?N" by simp
    with Cons.prems(2) w1 show ?thesis by (simp add: b1_def)
  qed
  have p3: "unat (arrLen b1) \<le> length (addr b1)"
    using Cons.prems(3) by (simp add: b1_def)
  from Cons.IH [OF p1 p2 p3] obtain b' where
    r: "run b1 (map Write ds) = Inr b'"
    and a: "addr b' = take (unat (writePos b1)) (addr b1) @ ds
                    @ drop (unat (writePos b1) + length ds) (addr b1)"
    and w: "unat (writePos b') = (unat (writePos b1) + length ds) mod unat (arrLen b1)"
    and k: "arrLen b' = arrLen b1" "readPos b' = readPos b1" "flags b' = flags b1"
    by blast
  from wN Cons.prems(3) have inb: "?w < length (addr b)" by simp
  have a': "addr b' = take ?w (addr b) @ (d # ds) @ drop (?w + length (d # ds)) (addr b)"
  proof (cases "?w + 1 = ?N")
    case True
    with Cons.prems(2) have "ds = []" by (cases ds) auto
    moreover from True w1 have "unat (writePos b1) = 0" by simp
    ultimately show ?thesis
      using a inb by (simp add: b1_def upd_conv_take_nth_drop)
  next
    case False
    with wN have "?w + 1 < ?N" by simp
    with w1 have "unat (writePos b1) = Suc ?w" by simp
    then show ?thesis
      using a inb by (simp add: b1_def take_Suc_conv_app_nth)
  qed
  have w': "unat (writePos b') = (?w + length (d # ds)) mod ?N"
    using w w1 by (simp add: b1_def mod_add_left_eq)
  from r st have "run b (map Write (d # ds)) = Inr b'" by simp
  with a' w' k show ?case by (simp add: b1_def)
qed

lemma step_v_Write: "step_v b (Write d) = step b (Write d)"
  by (simp add: write_v_def write_ref_def)

lemma run_v_writes: "run_v b (map Write ds) = run b (map Write ds)"
  by (induction ds arbitrary: b)
    (simp_all add: step_v_Write del: step.simps step_v.simps split: sum.splits)

text \<open>
  C9. A buffer of capacity N over an array of N elements, its write cursor at 0 and
  below the capacity: N consecutive unprotected writes of either form succeed, fill
  the array with the N elements in the order written, and bring the write cursor back
  to its initial value; one more write stores its element at index 0, where the
  element written first was.
\<close>

theorem wraparound:
  assumes "writePos b = 0" and "writePos b < arrLen b"
    and "length (addr b) = unat (arrLen b)" and "length ds = unat (arrLen b)"
  shows "\<exists>b'. run b (map Write ds) = Inr b' \<and> run_v b (map Write ds) = Inr b'
      \<and> writePos b' = writePos b \<and> addr b' = ds
      \<and> (\<exists>b'' r. write_ref b' d = Inr (b'', r) \<and> write_v b' d = Inr (b'', r)
            \<and> addr b'' = ds[0 := d] \<and> addr b'' ! 0 = d \<and> addr b' ! 0 = hd ds)"
proof -
  from assms(1,2) have nz: "arrLen b \<noteq> 0" by auto
  from assms(1,4) have p2: "unat (writePos b) + length ds \<le> unat (arrLen b)" by simp
  from assms(3) have p3: "unat (arrLen b) \<le> length (addr b)" by simp
  from run_writes [OF assms(2) p2 p3] obtain b' where
    r: "run b (map Write ds) = Inr b'"
    and a: "addr b' = take (unat (writePos b)) (addr b) @ ds
                    @ drop (unat (writePos b) + length ds) (addr b)"
    and w: "unat (writePos b') = (unat (writePos b) + length ds) mod unat (arrLen b)"
    and k: "arrLen b' = arrLen b"
    by blast
  from a assms have a': "addr b' = ds" by simp
  from w assms have "unat (writePos b') = 0" by simp
  then have w': "writePos b' = 0" by (simp add: unat_eq_zero)
  from nz have "unat (arrLen b) \<noteq> 0" by (simp add: unat_eq_zero)
  with assms(4) have ne: "ds \<noteq> []" by auto
  from w' k nz have q1: "writePos b' < arrLen b'" by (simp add: word_gt_0)
  from a' k assms(4) have q2: "unat (arrLen b') \<le> length (addr b')" by simp
  have "addr b' ! 0 = hd ds" using a' ne by (simp add: hd_conv_nth)
  moreover have "ds[0 := d] ! 0 = d" using ne by simp
  ultimately show ?thesis
    using r w' a' assms(1) write_ref_ok [OF q1 q2, of d]
    by (simp add: run_v_writes write_v_eq)
qed

theorem wraparound_witness:
  "writePos (int_buffer [0, 0, 0, 0] 2 0 0) = 0
   \<and> writePos (int_buffer [0, 0, 0, 0] 2 0 0) < arrLen (int_buffer [0, 0, 0, 0] 2 0 0)
   \<and> length (addr (int_buffer [0, 0, 0, 0] 2 0 0)) = unat (arrLen (int_buffer [0, 0, 0, 0] 2 0 0))
   \<and> length [10, 20, 30, 40 :: 32 word] = unat (arrLen (int_buffer [0, 0, 0, 0] 2 0 0))
   \<and> (\<exists>b'. run (int_buffer [0, 0, 0, 0] 2 0 0) (map Write [10, 20, 30, 40]) = Inr b'
        \<and> run_v (int_buffer [0, 0, 0, 0] 2 0 0) (map Write [10, 20, 30, 40]) = Inr b'
        \<and> writePos b' = writePos (int_buffer [0, 0, 0, 0] 2 0 0)
        \<and> addr b' = [10, 20, 30, 40]
        \<and> (\<exists>b'' r. write_ref b' 50 = Inr (b'', r) \<and> write_v b' 50 = Inr (b'', r)
              \<and> addr b'' = [10, 20, 30, 40][0 := 50] \<and> addr b'' ! 0 = 50
              \<and> addr b' ! 0 = hd [10, 20, 30, 40]))"
proof -
  have h1: "writePos (int_buffer [0, 0, 0, 0] 2 0 0) = 0"
    by (simp add: int_buffer_def)
  have h2: "writePos (int_buffer [0, 0, 0, 0] 2 0 0) < arrLen (int_buffer [0, 0, 0, 0] 2 0 0)"
    by (simp add: int_buffer_def)
  have h3: "length (addr (int_buffer [0, 0, 0, 0] 2 0 0))
      = unat (arrLen (int_buffer [0, 0, 0, 0] 2 0 0))"
    by (simp add: int_buffer_def)
  have h4: "length [10, 20, 30, 40 :: 32 word] = unat (arrLen (int_buffer [0, 0, 0, 0] 2 0 0))"
    by (simp add: int_buffer_def)
  show ?thesis
    by (intro conjI h1 h2 h3 h4 wraparound [OF h1 h2 h3 h4])
qed

section \<open>The scenario of capacity 4\<close>

text \<open>
  C10. A buffer of capacity 4 over 4-byte integers, both cursors at 0, whatever the
  array and the flag byte hold. After unprotected writes of 10, 20, 30, 40 the array
  holds them in order and four unprotected reads deliver 10, 20, 30, 40. After a fifth
  write, of 50, before any read, the read cursor is still 0, slot 0 holds 50 and the
  first read delivers 50. Both forms (the reference form delivers a pointer to the
  slot, read through at once).
\<close>

theorem scenario_capacity_4:
  "run (int_buffer [a0, a1, a2, a3] 0 0 f) [Write 10, Write 20, Write 30, Write 40]
     = Inr (int_buffer [10, 20, 30, 40] 0 0 f)
   \<and> reads (int_buffer [10, 20, 30, 40] 0 0 f) 4
     = Inr (int_buffer [10, 20, 30, 40] 0 0 f, [10, 20, 30, 40])
   \<and> run (int_buffer [a0, a1, a2, a3] 0 0 f) [Write 10, Write 20, Write 30, Write 40, Write 50]
     = Inr (int_buffer [50, 20, 30, 40] 0 1 f)
   \<and> reads (int_buffer [50, 20, 30, 40] 0 1 f) 1
     = Inr (int_buffer [50, 20, 30, 40] 1 1 f, [50])
   \<and> run_v (int_buffer [a0, a1, a2, a3] 0 0 f) [Write 10, Write 20, Write 30, Write 40]
     = Inr (int_buffer [10, 20, 30, 40] 0 0 f)
   \<and> reads_v (int_buffer [10, 20, 30, 40] 0 0 f) 4
     = Inr (int_buffer [10, 20, 30, 40] 0 0 f, [10, 20, 30, 40])
   \<and> run_v (int_buffer [a0, a1, a2, a3] 0 0 f) [Write 10, Write 20, Write 30, Write 40, Write 50]
     = Inr (int_buffer [50, 20, 30, 40] 0 1 f)
   \<and> reads_v (int_buffer [50, 20, 30, 40] 0 1 f) 1
     = Inr (int_buffer [50, 20, 30, 40] 1 1 f, [50])"
proof -
  have n4: "(4 :: nat) = Suc (Suc (Suc (Suc 0)))" and n1: "(1 :: nat) = Suc 0" by simp_all
  have w4: "run (int_buffer [a0, a1, a2, a3] 0 0 f) [Write 10, Write 20, Write 30, Write 40]
     = Inr (int_buffer [10, 20, 30, 40] 0 0 f)"
    by (simp add: int_buffer_def write_ref_def Let_def)
  have w5: "run (int_buffer [a0, a1, a2, a3] 0 0 f) [Write 10, Write 20, Write 30, Write 40, Write 50]
     = Inr (int_buffer [50, 20, 30, 40] 0 1 f)"
    by (simp add: int_buffer_def write_ref_def Let_def)
  have r4: "reads (int_buffer [10, 20, 30, 40] 0 0 f) 4
     = Inr (int_buffer [10, 20, 30, 40] 0 0 f, [10, 20, 30, 40])"
    unfolding n4 by (simp add: int_buffer_def read_def deref_def)
  have r1: "reads (int_buffer [50, 20, 30, 40] 0 1 f) 1
     = Inr (int_buffer [50, 20, 30, 40] 1 1 f, [50])"
    unfolding n1 by (simp add: int_buffer_def read_def deref_def)
  have v4: "run_v (int_buffer [a0, a1, a2, a3] 0 0 f) [Write 10, Write 20, Write 30, Write 40]
     = Inr (int_buffer [10, 20, 30, 40] 0 0 f)"
    by (simp add: int_buffer_def write_v_def Let_def)
  have v5: "run_v (int_buffer [a0, a1, a2, a3] 0 0 f) [Write 10, Write 20, Write 30, Write 40, Write 50]
     = Inr (int_buffer [50, 20, 30, 40] 0 1 f)"
    by (simp add: int_buffer_def write_v_def Let_def)
  have s4: "reads_v (int_buffer [10, 20, 30, 40] 0 0 f) 4
     = Inr (int_buffer [10, 20, 30, 40] 0 0 f, [10, 20, 30, 40])"
    unfolding n4 by (simp add: int_buffer_def read_v_def)
  have s1: "reads_v (int_buffer [50, 20, 30, 40] 0 1 f) 1
     = Inr (int_buffer [50, 20, 30, 40] 1 1 f, [50])"
    unfolding n1 by (simp add: int_buffer_def read_v_def)
  show ?thesis by (intro conjI w4 r4 w5 r1 v4 s4 v5 s1)
qed

section \<open>The two forms side by side\<close>

text \<open>
  Where the value form delivers an element, the reference form, started in the same
  state (and, for \<open>p_read\<close>, with the same content of \<open>index\<close>), reaches the same state
  and delivers a pointer to a slot that holds that element. (\<open>write\<close> and \<open>p_write\<close>
  are \<open>write_v_eq\<close> and \<open>p_write_v_eq\<close>.)
\<close>

lemma forms_agree_read:
  assumes "read_v b = Inr (b', x)"
  shows "\<exists>p. read b = Inr (b', p) \<and> deref b' p = Inr x"
  using assms by (auto simp add: read_v_def read_def deref_def split: if_splits)

lemma forms_agree_p_read:
  assumes "isEmpty b = 0" and "p_read_v b i x0 = Inr (b', x)"
  shows "\<exists>p. p_read b i j = Inr (b', p) \<and> deref b' p = Inr x"
  using assms
  by (auto simp add: p_read_v_def p_read_def deref_def isEmpty_def Let_def split: if_splits)

text \<open>
  C8. The claim: on every sequence of calls the two forms produce the same cursors,
  flags, returned indices and delivered elements. The code does not guarantee it for
  \<open>p_read\<close>: each form takes the slot to read, the next read cursor and the EMPTY
  flag from its own uninitialised local \<open>index\<close>, so the two forms agree only if
  those locals happen to hold the same value. From one and the same buffer (10 and 20
  written, read cursor 0, write cursor 2, both flags clear), the reference form with
  \<open>index\<close> holding 0 delivers slot 0 (the element 10) and leaves the read cursor at 1
  with EMPTY clear; the value form with \<open>index\<close> holding 1 delivers 20 and leaves the
  read cursor at 2 with EMPTY set.
\<close>

theorem forms_differ_on_p_read:
  "p_read (int_buffer [10, 20, 0, 0] 0 2 0) 0 j = Inr (int_buffer [10, 20, 0, 0] 1 2 0, 0)
   \<and> deref (int_buffer [10, 20, 0, 0] 1 2 0) 0 = Inr 10
   \<and> p_read_v (int_buffer [10, 20, 0, 0] 0 2 0) 1 x = Inr (int_buffer [10, 20, 0, 0] 2 2 2, 20)"
  by (simp add: eval_defs)

end
